theory Spec2Isabelle
  imports Main
begin

section \<open>internetarchive.utils: the stream adapter and the lazy item list\<close>

text \<open>
  A shallow embedding of the two stateful classes of \<^verbatim>\<open>internetarchive/utils.py\<close>:
  \<^verbatim>\<open>IterableToFileAdapter\<close> and \<^verbatim>\<open>IdentifierListAsItems\<close>. Objects are records,
  methods take the object and return it updated, a raised exception is the \<open>Inl\<close> branch
  of a sum, and Python's \<^verbatim>\<open>None\<close> in a slot of \<^verbatim>\<open>_items\<close> is \<open>None\<close>.
\<close>

subsection \<open>Exceptions and Python list indexing\<close>

text \<open>
  The exception kinds the two classes can meet. \<open>OtherError\<close> stands for every other
  kind the session may raise (a network error, say), tagged by its name.
\<close>

datatype exn = IndexError | ValueError | AttributeError | OtherError string

text \<open>
  \<^verbatim>\<open>xs[i]\<close> on a list of length \<open>n\<close> with an integer \<open>i\<close>: a negative index counts
  from the end, and an index outside \<open>[-n, n)\<close> raises \<^verbatim>\<open>IndexError\<close>.
\<close>

definition list_index :: "nat \<Rightarrow> int \<Rightarrow> exn + nat" where
  "list_index n i =
     (let j = (if i < 0 then i + int n else i)
      in if 0 \<le> j \<and> j < int n then Inr (nat j) else Inl IndexError)"

text \<open>
  \<^verbatim>\<open>slice(start, stop, step).indices(length)\<close>, as CPython computes it for integer or
  \<^verbatim>\<open>None\<close> components: a zero step raises \<^verbatim>\<open>ValueError\<close>; otherwise start and stop
  are clipped to \<open>[0, length]\<close> for a positive step and to \<open>[-1, length - 1]\<close> for a
  negative one.
\<close>

definition clip_index :: "int \<Rightarrow> int \<Rightarrow> int \<Rightarrow> int \<Rightarrow> int" where
  "clip_index lower upper n x =
     (if x < 0 then (if x + n < lower then lower else x + n)
      else (if x > upper then upper else x))"

definition slice_indices ::
  "int option \<Rightarrow> int option \<Rightarrow> int option \<Rightarrow> nat \<Rightarrow> exn + (int \<times> int \<times> int)" where
  "slice_indices start stop step n =
     (let st = (case step of None \<Rightarrow> 1 | Some s \<Rightarrow> s)
      in if st = 0 then Inl ValueError
         else
           (let lower = (if st < 0 then - 1 else 0);
                upper = (if st < 0 then int n - 1 else int n);
                a = (case start of None \<Rightarrow> (if st < 0 then upper else lower)
                     | Some x \<Rightarrow> clip_index lower upper (int n) x);
                b = (case stop of None \<Rightarrow> (if st < 0 then lower else upper)
                     | Some x \<Rightarrow> clip_index lower upper (int n) x)
            in Inr (a, b, st)))"

text \<open>
  \<^verbatim>\<open>range(start, stop, step)\<close> for a non-zero step: \<open>start, start + step, ...\<close> as long
  as the value is below \<open>stop\<close> (step positive) or above it (step negative).
\<close>

function py_range :: "int \<Rightarrow> int \<Rightarrow> int \<Rightarrow> int list" where
  "py_range start stop step =
     (if 0 < step \<and> start < stop then start # py_range (start + step) stop step
      else if step < 0 \<and> stop < start then start # py_range (start + step) stop step
      else [])"
  by pat_completeness auto
termination
  by (relation "measure (\<lambda>(a, b, s). nat (if 0 < s then b - a else a - b))") auto

declare py_range.simps [simp del]

text \<open>
  \<^verbatim>\<open>xs[slice(start, stop, step)]\<close> on a list: the elements at the positions
  \<^verbatim>\<open>range(*slice.indices(len(xs)))\<close>, in that order.
\<close>

definition list_slice ::
  "'a list \<Rightarrow> int option \<Rightarrow> int option \<Rightarrow> int option \<Rightarrow> exn + 'a list" where
  "list_slice xs start stop step =
     (case slice_indices start stop step (length xs) of
        Inl e \<Rightarrow> Inl e
      | Inr (a, b, s) \<Rightarrow> Inr (map (\<lambda>i. xs ! nat i) (py_range a b s)))"

text \<open>
  \<^verbatim>\<open>xs.index(x)\<close>: the first position holding \<open>x\<close>, \<^verbatim>\<open>ValueError\<close> when there is none.
\<close>

fun index_of :: "'a list \<Rightarrow> 'a \<Rightarrow> exn + nat" where
  "index_of [] x = Inl ValueError"
| "index_of (y # ys) x =
     (if y = x then Inr 0
      else (case index_of ys x of Inl e \<Rightarrow> Inl e | Inr k \<Rightarrow> Inr (Suc k)))"

subsection \<open>IterableToFileAdapter\<close>

text \<open>
  \<^verbatim>\<open>
  class IterableToFileAdapter(object):
      def __init__(self, iterable, size):
          self.iterator = iter(iterable)
          self.length = size
      def read(self, size=-1):
          return next(self.iterator, b'')
      def __len__(self):
          return self.length
  \<close>
  A chunk is a byte string. The iterator is the sequence of chunks the iterable has yet to
  yield; \<^verbatim>\<open>next\<close> takes the first of them away, and gives the default \<^verbatim>\<open>b''\<close> when
  none is left.
\<close>

type_synonym bytes = string

record IterableToFileAdapter =
  iterator :: "bytes list"
  length_attr :: int

definition IterableToFileAdapter_init :: "bytes list \<Rightarrow> int \<Rightarrow> IterableToFileAdapter" where
  "IterableToFileAdapter_init iterable sz = \<lparr>iterator = iterable, length_attr = sz\<rparr>"

definition read :: "IterableToFileAdapter \<Rightarrow> int \<Rightarrow> bytes \<times> IterableToFileAdapter" where
  "read self sz =
     (case iterator self of
        [] \<Rightarrow> ([], self)
      | c # cs \<Rightarrow> (c, self\<lparr>iterator := cs\<rparr>))"

definition adapter_len :: "IterableToFileAdapter \<Rightarrow> int" where
  "adapter_len self = length_attr self"

text \<open>A sequence of \<open>read\<close> calls, one per given size argument, with what each returned.\<close>

fun reads :: "IterableToFileAdapter \<Rightarrow> int list \<Rightarrow> bytes list \<times> IterableToFileAdapter" where
  "reads self [] = ([], self)"
| "reads self (sz # szs) =
     (case read self sz of
        (c, self') \<Rightarrow> (case reads self' szs of (cs, self'') \<Rightarrow> (c # cs, self'')))"

subsection \<open>IdentifierListAsItems\<close>

text \<open>
  \<^verbatim>\<open>
  class IdentifierListAsItems(object):
      """This class is a lazily-loaded list of Items, accessible by index or identifier."""
      def __init__(self, id_list_or_single_id, session):
          self.ids = id_list_or_single_id \
              if isinstance(id_list_or_single_id, list) \
              else [id_list_or_single_id]
          self._items = [None] * len(self.ids)
          self.session = session
      def __len__(self):
          return len(self.ids)
      def __getitem__(self, idx):
          for i in (range(*idx.indices(len(self))) if isinstance(idx, slice) else [idx]):
              if self._items[i] is None:
                  self._items[i] = self.session.get_item(self.ids[i])
          return self._items[idx]
      def __getattr__(self, name):
          try:
              return self[self.ids.index(name)]
          except ValueError:
              raise AttributeError
  \<close>
  The object is a record of its three attributes. \<open>calls\<close> is not an attribute of the
  class: it is the log of the identifiers \<^verbatim>\<open>session.get_item\<close> was called with, kept so
  that the number and the order of the calls can be stated.

  The session class is not part of this module. Its method \<^verbatim>\<open>get_item\<close> is a parameter
  \<open>gi\<close> of every operation: from the state of the session (type \<open>'s\<close>) and an identifier
  it gives either an exception or the object it returns, and the next state of the
  session. The returned object is an item \<open>Some v\<close> (\<open>v\<close> of type \<open>'v\<close>) or Python's
  \<^verbatim>\<open>None\<close>, here \<open>None\<close>: the class stores whatever it is given, and tests the slot
  with \<^verbatim>\<open>is None\<close>, so a returned \<^verbatim>\<open>None\<close> leaves the slot unset.
\<close>

datatype id_arg = IdList "string list" | SingleId string

record ('s, 'v) IdentifierListAsItems =
  ids :: "string list"
  items :: "'v option list"
  session :: 's
  calls :: "string list"

type_synonym ('s, 'v) get_item = "'s \<Rightarrow> string \<Rightarrow> (exn + 'v option) \<times> 's"

definition IdentifierListAsItems_init :: "id_arg \<Rightarrow> 's \<Rightarrow> ('s, 'v) IdentifierListAsItems" where
  "IdentifierListAsItems_init id_list_or_single_id s =
     (let l = (case id_list_or_single_id of IdList xs \<Rightarrow> xs | SingleId x \<Rightarrow> [x])
      in \<lparr>ids = l, items = replicate (length l) None, session = s, calls = []\<rparr>)"

definition len :: "('s, 'v) IdentifierListAsItems \<Rightarrow> int" where
  "len self = int (length (ids self))"

text \<open>
  The body of the loop of \<^verbatim>\<open>__getitem__\<close> for one index \<open>i\<close>: \<^verbatim>\<open>self._items[i]\<close> is
  read (and may raise \<^verbatim>\<open>IndexError\<close>); when it is \<^verbatim>\<open>None\<close>, \<^verbatim>\<open>self.ids[i]\<close> is read,
  \<^verbatim>\<open>get_item\<close> is called, and only when it returns is what it returned stored.
\<close>

definition resolve ::
  "('s, 'v) get_item \<Rightarrow> ('s, 'v) IdentifierListAsItems \<Rightarrow> int \<Rightarrow>
     (exn + unit) \<times> ('s, 'v) IdentifierListAsItems" where
  "resolve gi self i =
     (case list_index (length (items self)) i of
        Inl e \<Rightarrow> (Inl e, self)
      | Inr j \<Rightarrow>
          (case items self ! j of
             Some v \<Rightarrow> (Inr (), self)
           | None \<Rightarrow>
               (case list_index (length (ids self)) i of
                  Inl e \<Rightarrow> (Inl e, self)
                | Inr k \<Rightarrow>
                    (case gi (session self) (ids self ! k) of
                       (Inl e, s') \<Rightarrow>
                         (Inl e, self\<lparr>session := s', calls := calls self @ [ids self ! k]\<rparr>)
                     | (Inr v, s') \<Rightarrow>
                         (Inr (), self\<lparr>items := (items self)[j := v], session := s',
                                       calls := calls self @ [ids self ! k]\<rparr>)))))"

text \<open>The loop: the indices in order, stopping at the first exception.\<close>

fun resolve_all ::
  "('s, 'v) get_item \<Rightarrow> ('s, 'v) IdentifierListAsItems \<Rightarrow> int list \<Rightarrow>
     (exn + unit) \<times> ('s, 'v) IdentifierListAsItems" where
  "resolve_all gi self [] = (Inr (), self)"
| "resolve_all gi self (i # rest) =
     (case resolve gi self i of
        (Inl e, self') \<Rightarrow> (Inl e, self')
      | (Inr u, self') \<Rightarrow> resolve_all gi self' rest)"

text \<open>
  The argument of \<^verbatim>\<open>__getitem__\<close> is an integer or a slice, and its result one slot or
  a list of slots.
\<close>

datatype index = Idx int | Slice "int option" "int option" "int option"

datatype 'v got = One "'v option" | Many "'v option list"

definition getitem ::
  "('s, 'v) get_item \<Rightarrow> ('s, 'v) IdentifierListAsItems \<Rightarrow> index \<Rightarrow>
     (exn + 'v got) \<times> ('s, 'v) IdentifierListAsItems" where
  "getitem gi self idx =
     (case idx of
        Idx i \<Rightarrow>
          (case resolve_all gi self [i] of
             (Inl e, self') \<Rightarrow> (Inl e, self')
           | (Inr u, self') \<Rightarrow>
               (case list_index (length (items self')) i of
                  Inl e \<Rightarrow> (Inl e, self')
                | Inr j \<Rightarrow> (Inr (One (items self' ! j)), self')))
      | Slice start stop step \<Rightarrow>
          (case slice_indices start stop step (nat (len self)) of
             Inl e \<Rightarrow> (Inl e, self)
           | Inr (a, b, s) \<Rightarrow>
               (case resolve_all gi self (py_range a b s) of
                  (Inl e, self') \<Rightarrow> (Inl e, self')
                | (Inr u, self') \<Rightarrow>
                    (case list_slice (items self') start stop step of
                       Inl e \<Rightarrow> (Inl e, self')
                     | Inr vs \<Rightarrow> (Inr (Many vs), self')))))"

text \<open>
  \<^verbatim>\<open>__getattr__\<close>: the \<^verbatim>\<open>try\<close> block holds both the search in \<^verbatim>\<open>ids\<close> and the call of
  \<^verbatim>\<open>__getitem__\<close>, so a \<^verbatim>\<open>ValueError\<close> from either becomes an \<^verbatim>\<open>AttributeError\<close>.
\<close>

definition except_ValueError ::
  "(exn + 'a) \<times> 'st \<Rightarrow> (exn + 'a) \<times> 'st" where
  "except_ValueError r =
     (case r of
        (Inl e, st) \<Rightarrow> (if e = ValueError then (Inl AttributeError, st) else (Inl e, st))
      | (Inr x, st) \<Rightarrow> (Inr x, st))"

definition getattr ::
  "('s, 'v) get_item \<Rightarrow> ('s, 'v) IdentifierListAsItems \<Rightarrow> string \<Rightarrow>
     (exn + 'v got) \<times> ('s, 'v) IdentifierListAsItems" where
  "getattr gi self name =
     except_ValueError
       (case index_of (ids self) name of
          Inl e \<Rightarrow> (Inl e, self)
        | Inr i \<Rightarrow> getitem gi self (Idx (int i)))"

text \<open>The operations of the class as values, and a run of several of them on one object.\<close>

datatype operation = Get index | GetByName string

definition perform ::
  "('s, 'v) get_item \<Rightarrow> ('s, 'v) IdentifierListAsItems \<Rightarrow> operation \<Rightarrow>
     (exn + 'v got) \<times> ('s, 'v) IdentifierListAsItems" where
  "perform gi self opn =
     (case opn of Get idx \<Rightarrow> getitem gi self idx | GetByName name \<Rightarrow> getattr gi self name)"

fun run ::
  "('s, 'v) get_item \<Rightarrow> ('s, 'v) IdentifierListAsItems \<Rightarrow> operation list \<Rightarrow>
     (exn + 'v got) list \<times> ('s, 'v) IdentifierListAsItems" where
  "run gi self [] = ([], self)"
| "run gi self (opn # ops) =
     (case perform gi self opn of
        (r, self') \<Rightarrow> (case run gi self' ops of (rs, self'') \<Rightarrow> (r # rs, self'')))"

text \<open>The invariant of the object: one slot per identifier.\<close>

definition well_formed :: "('s, 'v) IdentifierListAsItems \<Rightarrow> bool" where
  "well_formed self = (length (items self) = length (ids self))"

text \<open>
  What a slice access is to do with the positions it has to ask for, written out: call
  \<^verbatim>\<open>get_item\<close> for each position in turn, store each answer in its slot, and stop at the
  first exception, keeping what has been stored by then. This is not a function of the
  module; \<open>__getitem__\<close> is compared with it below.
\<close>

fun fetch_in_order ::
  "('s, 'v) get_item \<Rightarrow> ('s, 'v) IdentifierListAsItems \<Rightarrow> nat list \<Rightarrow>
     (exn + unit) \<times> ('s, 'v) IdentifierListAsItems" where
  "fetch_in_order gi self [] = (Inr (), self)"
| "fetch_in_order gi self (j # js) =
     (case gi (session self) (ids self ! j) of
        (Inl e, s') \<Rightarrow> (Inl e, self\<lparr>session := s', calls := calls self @ [ids self ! j]\<rparr>)
      | (Inr v, s') \<Rightarrow>
          fetch_in_order gi
            (self\<lparr>items := (items self)[j := v], session := s',
                  calls := calls self @ [ids self ! j]\<rparr>) js)"

subsection \<open>Sessions and an object for the examples\<close>

text \<open>
  Five sessions to run the operations on; the state of each counts the calls it has
  answered. \<open>echo_session\<close> always returns an item, \<open>none_session\<close> always returns
  \<^verbatim>\<open>None\<close>, \<open>broken_session\<close> always raises \<^verbatim>\<open>ValueError\<close> (as a response that is not
  JSON makes the real one do), \<open>flaky_session\<close> raises on its first call only and
  \<open>tired_session\<close> on its second call only.
\<close>

definition echo_session :: "(nat, string) get_item" where
  "echo_session s k = (Inr (Some (''item-'' @ k)), Suc s)"

definition none_session :: "(nat, string) get_item" where
  "none_session s k = (Inr None, Suc s)"

definition broken_session :: "(nat, string) get_item" where
  "broken_session s k = (Inl ValueError, Suc s)"

definition flaky_session :: "(nat, string) get_item" where
  "flaky_session s k =
     (if s = 0 then Inl (OtherError ''ConnectionError'') else Inr (Some (''item-'' @ k)), Suc s)"

definition tired_session :: "(nat, string) get_item" where
  "tired_session s k =
     (if s = 1 then Inl (OtherError ''ConnectionError'') else Inr (Some (''item-'' @ k)), Suc s)"

definition abc :: "(nat, string) IdentifierListAsItems" where
  "abc = IdentifierListAsItems_init (IdList [''a'', ''b'', ''c'']) 0"

definition aba :: "(nat, string) IdentifierListAsItems" where
  "aba = IdentifierListAsItems_init (IdList [''a'', ''b'', ''a'']) 0"

section \<open>Properties\<close>

text \<open>The definitions that evaluating an example unfolds.\<close>

lemmas eval_defs = IdentifierListAsItems_init_def getitem_def getattr_def resolve_def
  list_index_def len_def well_formed_def except_ValueError_def slice_indices_def
  clip_index_def list_slice_def perform_def Let_def

subsection \<open>Indexing\<close>

lemma list_index_Inr: "list_index n i = Inr j \<Longrightarrow> j < n"
  by (auto simp: list_index_def Let_def split: if_splits)

lemma list_index_Inl: "list_index n i = Inl e \<Longrightarrow> e = IndexError"
  by (auto simp: list_index_def Let_def split: if_splits)

lemma list_index_inside:
  "- int n \<le> i \<Longrightarrow> i < int n \<Longrightarrow> list_index n i = Inr (nat (if i < 0 then i + int n else i))"
  by (auto simp: list_index_def Let_def)

lemma list_index_outside:
  "i < - int n \<or> int n \<le> i \<Longrightarrow> list_index n i = Inl IndexError"
  by (auto simp: list_index_def Let_def)

lemma list_index_nonneg: "0 \<le> i \<Longrightarrow> i < int n \<Longrightarrow> list_index n i = Inr (nat i)"
  by (simp add: list_index_def)

subsection \<open>The stream adapter\<close>

lemma reads_from:
  "fst (reads self szs) =
     take (length szs) (iterator self) @ replicate (length szs - length (iterator self)) [] \<and>
   iterator (snd (reads self szs)) = drop (length szs) (iterator self) \<and>
   length_attr (snd (reads self szs)) = length_attr self"
proof (induction szs arbitrary: self)
  case Nil
  then show ?case by simp
next
  case (Cons sz szs)
  show ?case
  proof (cases "iterator self")
    case Nil
    with Cons.IH [of self] show ?thesis
      by (simp add: read_def case_prod_beta)
  next
    case (Cons c cs)
    with Cons.IH [of "self\<lparr>iterator := cs\<rparr>"] show ?thesis
      by (simp add: read_def case_prod_beta)
  qed
qed

text \<open>
  C5: \<open>read\<close> does not look at its size argument; a sequence of reads on an adapter built
  from a list of chunks returns the chunks in order, one per call, and the empty chunk
  from then on; \<open>__len__\<close> gives the declared length, on the fresh adapter and after any
  number of reads, whatever the chunks hold.
\<close>

theorem read_yields_chunks_in_order:
  "read self sz = read self sz' \<and>
   fst (reads (IterableToFileAdapter_init chunks n) szs) =
     take (length szs) chunks @ replicate (length szs - length chunks) [] \<and>
   adapter_len (IterableToFileAdapter_init chunks n) = n \<and>
   adapter_len (snd (reads (IterableToFileAdapter_init chunks n) szs)) = n"
  using reads_from [of "IterableToFileAdapter_init chunks n" szs]
  by (simp add: read_def adapter_len_def IterableToFileAdapter_init_def)

text \<open>
  The example of the specification: chunks \<^verbatim>\<open>[b"ab", b"cd"]\<close>, declared length 4, three
  reads with different size arguments.
\<close>

theorem read_yields_chunks_in_order_witness:
  "fst (reads (IterableToFileAdapter_init [''ab'', ''cd''] 4) [- 1, 8192, 0]) =
     [''ab'', ''cd'', ''''] \<and>
   adapter_len (IterableToFileAdapter_init [''ab'', ''cd''] 4) = 4 \<and>
   adapter_len (snd (reads (IterableToFileAdapter_init [''ab'', ''cd''] 4) [- 1])) = 4 \<and>
   adapter_len (snd (reads (IterableToFileAdapter_init [''ab'', ''cd''] 4) [- 1, 8192])) = 4 \<and>
   adapter_len (snd (reads (IterableToFileAdapter_init [''ab'', ''cd''] 4) [- 1, 8192, 0])) = 4"
  using read_yields_chunks_in_order [of _ 0 0 "[''ab'', ''cd'']" 4 "[- 1, 8192, 0]"]
    read_yields_chunks_in_order [of _ 0 0 "[''ab'', ''cd'']" 4 "[- 1, 8192]"]
    read_yields_chunks_in_order [of _ 0 0 "[''ab'', ''cd'']" 4 "[- 1]"]
  by (simp add: numeral_3_eq_3)

subsection \<open>Construction\<close>

text \<open>
  C8: built from the bare identifier \<open>x\<close> (\<^verbatim>\<open>"foo"\<close>, say) the object is the one built
  from the one-element list \<open>[x]\<close>; so its length and the results and effects of every
  run of \<open>__getitem__\<close> and \<open>__getattr__\<close> calls are the same.
\<close>

theorem single_id_as_list:
  "(IdentifierListAsItems_init (SingleId x) s :: ('s, 'v) IdentifierListAsItems) =
     IdentifierListAsItems_init (IdList [x]) s \<and>
   len (IdentifierListAsItems_init (SingleId x) s :: ('s, 'v) IdentifierListAsItems) =
     len (IdentifierListAsItems_init (IdList [x]) s :: ('s, 'v) IdentifierListAsItems) \<and>
   run gi (IdentifierListAsItems_init (SingleId x) s) ops =
     run gi (IdentifierListAsItems_init (IdList [x]) s) ops"
  by (simp add: IdentifierListAsItems_init_def)

subsection \<open>What every operation keeps\<close>

lemma resolve_cases:
  assumes "well_formed self" and "list_index (length (ids self)) i = Inr j"
    and "resolve gi self i = (r, self')"
  obtains (memo) v where "items self ! j = Some v" "r = Inr ()" "self' = self"
  | (failed) e s' where "items self ! j = None" "gi (session self) (ids self ! j) = (Inl e, s')"
      "r = Inl e" "self' = self\<lparr>session := s', calls := calls self @ [ids self ! j]\<rparr>"
  | (fetched) v s' where "items self ! j = None" "gi (session self) (ids self ! j) = (Inr v, s')"
      "r = Inr ()"
      "self' = self\<lparr>items := (items self)[j := v], session := s',
                    calls := calls self @ [ids self ! j]\<rparr>"
  using assms
  by (auto simp: resolve_def well_formed_def split: option.splits sum.splits prod.splits)

lemma resolve_keeps:
  assumes "resolve gi self i = (r, self')"
  shows "ids self' = ids self" and "length (items self') = length (items self)"
    and "items self ! j = Some v \<Longrightarrow> items self' ! j = Some v"
proof -
  show "ids self' = ids self" and "length (items self') = length (items self)"
    using assms
    by (auto simp: resolve_def split: option.splits sum.splits prod.splits)
  assume set: "items self ! j = Some v"
  have "(items self)[k := x] ! j = Some v" if "items self ! k = None" for k x
  proof -
    from that set have "k \<noteq> j" by auto
    with set show ?thesis by simp
  qed
  with assms set show "items self' ! j = Some v"
    by (auto simp: resolve_def split: option.splits sum.splits prod.splits)
qed

lemma resolve_all_keeps:
  assumes "resolve_all gi self js = (r, self')"
  shows "ids self' = ids self \<and> length (items self') = length (items self) \<and>
         (\<forall>j v. items self ! j = Some v \<longrightarrow> items self' ! j = Some v)"
  using assms
proof (induction js arbitrary: self)
  case Nil
  then show ?case by simp
next
  case (Cons i rest)
  obtain r1 self1 where step: "resolve gi self i = (r1, self1)"
    by (cases "resolve gi self i")
  note k = resolve_keeps [OF step]
  show ?case
  proof (cases r1)
    case (Inl e)
    with Cons.prems step have "self' = self1" by simp
    with k show ?thesis by simp
  next
    case (Inr u)
    with Cons.prems step have "resolve_all gi self1 rest = (r, self')" by simp
    from Cons.IH [OF this] k show ?thesis by simp
  qed
qed

lemma getitem_keeps:
  assumes "getitem gi self idx = (r, self')"
  shows "ids self' = ids self \<and> length (items self') = length (items self) \<and>
         (\<forall>j v. items self ! j = Some v \<longrightarrow> items self' ! j = Some v)"
proof (cases idx)
  case (Idx i)
  obtain r1 self1 where ra: "resolve_all gi self [i] = (r1, self1)"
    by (cases "resolve_all gi self [i]")
  with assms Idx have "self' = self1"
    by (auto simp: getitem_def split: sum.splits)
  with resolve_all_keeps [OF ra] show ?thesis by simp
next
  case (Slice start stop step)
  show ?thesis
  proof (cases "slice_indices start stop step (nat (len self))")
    case (Inl e)
    with assms Slice show ?thesis by (simp add: getitem_def)
  next
    case (Inr t)
    obtain a b s where t: "t = (a, b, s)" by (cases t)
    obtain r1 self1 where ra: "resolve_all gi self (py_range a b s) = (r1, self1)"
      by (cases "resolve_all gi self (py_range a b s)")
    with assms Slice Inr t have "self' = self1"
      by (auto simp: getitem_def split: sum.splits)
    with resolve_all_keeps [OF ra] show ?thesis by simp
  qed
qed

lemma getattr_keeps:
  assumes "getattr gi self name = (r, self')"
  shows "ids self' = ids self \<and> length (items self') = length (items self) \<and>
         (\<forall>j v. items self ! j = Some v \<longrightarrow> items self' ! j = Some v)"
proof (cases "index_of (ids self) name")
  case (Inl e)
  with assms have "self' = self"
    by (auto simp: getattr_def except_ValueError_def split: if_splits)
  then show ?thesis by simp
next
  case (Inr i)
  obtain r1 self1 where g: "getitem gi self (Idx (int i)) = (r1, self1)"
    by (cases "getitem gi self (Idx (int i))")
  with assms Inr have "self' = self1"
    by (auto simp: getattr_def except_ValueError_def split: sum.splits if_splits)
  with getitem_keeps [OF g] show ?thesis by simp
qed

lemma perform_keeps:
  assumes "perform gi self opn = (r, self')"
  shows "ids self' = ids self \<and> length (items self') = length (items self) \<and>
         (\<forall>j v. items self ! j = Some v \<longrightarrow> items self' ! j = Some v)"
  using assms getitem_keeps [of gi self _ r self'] getattr_keeps [of gi self _ r self']
  by (cases opn) (simp_all add: perform_def)

lemma run_keeps:
  "ids (snd (run gi self ops)) = ids self \<and>
   length (items (snd (run gi self ops))) = length (items self) \<and>
   (\<forall>j v. items self ! j = Some v \<longrightarrow> items (snd (run gi self ops)) ! j = Some v)"
proof (induction ops arbitrary: self)
  case Nil
  then show ?case by simp
next
  case (Cons opn ops)
  obtain r1 self1 where p: "perform gi self opn = (r1, self1)"
    by (cases "perform gi self opn")
  then have "snd (run gi self (opn # ops)) = snd (run gi self1 ops)"
    by (simp add: case_prod_beta)
  with Cons.IH [of self1] perform_keeps [OF p] show ?case by simp
qed

subsection \<open>Integer indices\<close>

lemma getitem_Idx_outside:
  assumes "well_formed self" and "list_index (length (ids self)) i = Inl e"
  shows "getitem gi self (Idx i) = (Inl IndexError, self)"
  using assms list_index_Inl [of "length (ids self)" i e]
  by (simp add: getitem_def resolve_def well_formed_def)

lemma getitem_Idx_inside:
  assumes "well_formed self" and "list_index (length (ids self)) i = Inr j"
  shows "getitem gi self (Idx i) =
     (case items self ! j of
        Some v \<Rightarrow> (Inr (One (Some v)), self)
      | None \<Rightarrow>
          (case gi (session self) (ids self ! j) of
             (Inl e, s') \<Rightarrow> (Inl e, self\<lparr>session := s', calls := calls self @ [ids self ! j]\<rparr>)
           | (Inr v, s') \<Rightarrow>
               (Inr (One v),
                self\<lparr>items := (items self)[j := v], session := s',
                     calls := calls self @ [ids self ! j]\<rparr>)))"
  using assms list_index_Inr [of "length (ids self)" i j]
  by (simp add: getitem_def resolve_def well_formed_def split: option.splits sum.splits prod.splits)

lemma getitem_Idx_memo:
  assumes "well_formed self" and "list_index (length (ids self)) i = Inr j"
    and "getitem gi self (Idx i) = (Inr (One (Some v)), self1)"
  shows "items self1 ! j = Some v \<and> well_formed self1 \<and> ids self1 = ids self \<and>
         (calls self1 = calls self \<or> calls self1 = calls self @ [ids self ! j])"
  using assms list_index_Inr [of "length (ids self)" i j]
  by (auto simp: getitem_Idx_inside well_formed_def split: option.splits sum.splits prod.splits)

lemma getitem_Idx_again:
  assumes "well_formed self" and "list_index (length (ids self)) i = Inr j"
    and "list_index (length (ids self)) i' = Inr j"
    and "getitem gi self (Idx i) = (Inr (One (Some v)), self1)"
  shows "getitem gi self1 (Idx i') = (Inr (One (Some v)), self1)"
proof -
  from getitem_Idx_memo [OF assms(1,2,4)] have
    v: "items self1 ! j = Some v" and wf1: "well_formed self1" and ids1: "ids self1 = ids self"
    by simp_all
  from assms(3) ids1 have "list_index (length (ids self1)) i' = Inr j" by simp
  from getitem_Idx_inside [OF wf1 this] v show ?thesis by simp
qed

lemma getitem_Idx_None:
  assumes "well_formed self" and "list_index (length (ids self)) i = Inr j"
    and "list_index (length (ids self)) i' = Inr j"
    and "getitem gi self (Idx i) = (Inr (One None), self1)"
  shows "items self1 ! j = None \<and> calls self1 = calls self @ [ids self ! j] \<and>
         calls (snd (getitem gi self1 (Idx i'))) = calls self @ [ids self ! j, ids self ! j]"
proof -
  from assms(2) have lt: "j < length (ids self)" by (rule list_index_Inr)
  from assms(1,2,4) lt have
    slot: "items self1 ! j = None" and log: "calls self1 = calls self @ [ids self ! j]"
    and wf1: "well_formed self1" and ids1: "ids self1 = ids self"
    by (auto simp: getitem_Idx_inside well_formed_def
        split: option.splits sum.splits prod.splits)
  from assms(3) ids1 have "list_index (length (ids self1)) i' = Inr j" by simp
  from getitem_Idx_inside [OF wf1 this, of gi] slot log ids1
  have "calls (snd (getitem gi self1 (Idx i'))) = calls self @ [ids self ! j, ids self ! j]"
    by (simp split: sum.splits prod.splits)
  with slot log show ?thesis by simp
qed

text \<open>
  C1, as the code has it. The claim says that two calls of \<open>__getitem__(i)\<close> call
  \<open>get_item\<close> at most once, whatever the session. A slot is taken as unset when it holds
  \<^verbatim>\<open>None\<close>, so with a session whose \<open>get_item\<close> returns \<^verbatim>\<open>None\<close> the slot stays unset: both
  calls return \<^verbatim>\<open>None\<close>, and each of them calls \<open>get_item\<close>.
\<close>

theorem getitem_twice_counterexample:
  "getitem none_session abc (Idx 0) =
     (Inr (One None), abc\<lparr>session := 1, calls := [''a'']\<rparr>) \<and>
   getitem none_session (abc\<lparr>session := 1, calls := [''a'']\<rparr>) (Idx 0) =
     (Inr (One None), abc\<lparr>session := 2, calls := [''a'', ''a'']\<rparr>)"
  by (simp add: eval_defs abc_def none_session_def)

text \<open>
  C1, amended: on an object with one slot per identifier and an index \<open>i\<close> in \<open>[-n, n)\<close>,
  when \<open>__getitem__(i)\<close> returns an item (a value other than \<^verbatim>\<open>None\<close>), a second
  \<open>__getitem__(i)\<close> returns the same item and leaves the object as it is, the session and
  the log of calls included: it makes no call of \<open>get_item\<close>, and the first call made at
  most one, for the identifier of the slot. When \<open>__getitem__(i)\<close> returns \<^verbatim>\<open>None\<close>, it has
  called \<open>get_item\<close>, the slot is still unset, and the second call calls \<open>get_item\<close> again
  for the same identifier. A call that returns gives one slot, not a list.
\<close>

theorem getitem_twice:
  assumes "well_formed self" and "- len self \<le> i" and "i < len self"
  shows "(getitem gi self (Idx i) = (Inr (One (Some v)), self1) \<longrightarrow>
           getitem gi self1 (Idx i) = (Inr (One (Some v)), self1) \<and>
           (calls self1 = calls self \<or>
            calls self1 = calls self @ [ids self ! nat (if i < 0 then i + len self else i)])) \<and>
         (getitem gi self (Idx i) = (Inr (One None), self2) \<longrightarrow>
           items self2 ! nat (if i < 0 then i + len self else i) = None \<and>
           calls self2 = calls self @ [ids self ! nat (if i < 0 then i + len self else i)] \<and>
           calls (snd (getitem gi self2 (Idx i))) =
             calls self @ [ids self ! nat (if i < 0 then i + len self else i),
                           ids self ! nat (if i < 0 then i + len self else i)]) \<and>
         (getitem gi self (Idx i) = (Inr x, self3) \<longrightarrow> (\<exists>y. x = One y))"
proof -
  from assms(2,3) have li: "list_index (length (ids self)) i =
      Inr (nat (if i < 0 then i + len self else i))"
    using list_index_inside [of "length (ids self)" i] by (simp add: len_def)
  have one: "\<exists>y. x = One y" if "getitem gi self (Idx i) = (Inr x, self3)"
    using that by (auto simp: getitem_def split: sum.splits prod.splits)
  from getitem_Idx_again [OF assms(1) li li, of gi v self1]
    getitem_Idx_memo [OF assms(1) li, of gi v self1]
    getitem_Idx_None [OF assms(1) li li, of gi self2] one
  show ?thesis by blast
qed

theorem getitem_twice_witness:
  "getitem echo_session abc (Idx (- 1)) =
     (Inr (One (Some ''item-c'')),
      abc\<lparr>items := [None, None, Some ''item-c''], session := 1, calls := [''c'']\<rparr>) \<and>
   getitem echo_session
     (abc\<lparr>items := [None, None, Some ''item-c''], session := 1, calls := [''c'']\<rparr>) (Idx (- 1)) =
     (Inr (One (Some ''item-c'')),
      abc\<lparr>items := [None, None, Some ''item-c''], session := 1, calls := [''c'']\<rparr>)"
proof -
  have wf: "well_formed abc" by (simp add: eval_defs abc_def)
  have lo: "- len abc \<le> - 1" and hi: "- 1 < len abc"
    by (simp_all add: eval_defs abc_def)
  have g: "getitem echo_session abc (Idx (- 1)) =
     (Inr (One (Some ''item-c'')),
      abc\<lparr>items := [None, None, Some ''item-c''], session := 1, calls := [''c'']\<rparr>)"
    by (simp add: eval_defs abc_def echo_session_def)
  from getitem_twice [OF wf lo hi, of echo_session "''item-c''"
      "abc\<lparr>items := [None, None, Some ''item-c''], session := 1, calls := [''c'']\<rparr>"] g
  show ?thesis by blast
qed

text \<open>
  C6: with \<open>n = len(self)\<close>, an integer index below \<open>-n\<close> or from \<open>n\<close> on raises
  \<^verbatim>\<open>IndexError\<close> and leaves the object as it is (no call of \<open>get_item\<close>); an index in
  \<open>[-n, n)\<close> addresses slot \<open>i\<close>, or \<open>n + i\<close> when \<open>i\<close> is negative: the call returns
  the item of the slot when it is set, and otherwise what \<open>get_item\<close> answers for the
  identifier of that slot. No \<^verbatim>\<open>IndexError\<close> comes from the list itself there.
\<close>

theorem getitem_index_range:
  assumes "well_formed self"
  shows "(i < - len self \<or> len self \<le> i \<longrightarrow> getitem gi self (Idx i) = (Inl IndexError, self)) \<and>
    (- len self \<le> i \<and> i < len self \<longrightarrow>
       getitem gi self (Idx i) =
         (let j = nat (if i < 0 then len self + i else i)
          in case items self ! j of
               Some v \<Rightarrow> (Inr (One (Some v)), self)
             | None \<Rightarrow>
                 (case gi (session self) (ids self ! j) of
                    (Inl e, s') \<Rightarrow>
                      (Inl e, self\<lparr>session := s', calls := calls self @ [ids self ! j]\<rparr>)
                  | (Inr v, s') \<Rightarrow>
                      (Inr (One v),
                       self\<lparr>items := (items self)[j := v], session := s',
                            calls := calls self @ [ids self ! j]\<rparr>))))"
proof (intro conjI impI)
  assume "i < - len self \<or> len self \<le> i"
  then have "list_index (length (ids self)) i = Inl IndexError"
    using list_index_outside [of i "length (ids self)"] by (simp add: len_def)
  from getitem_Idx_outside [OF assms this] show "getitem gi self (Idx i) = (Inl IndexError, self)" .
next
  assume "- len self \<le> i \<and> i < len self"
  then have "list_index (length (ids self)) i = Inr (nat (if i < 0 then len self + i else i))"
    using list_index_inside [of "length (ids self)" i] by (simp add: len_def add.commute)
  from getitem_Idx_inside [OF assms this] show "getitem gi self (Idx i) =
         (let j = nat (if i < 0 then len self + i else i)
          in case items self ! j of
               Some v \<Rightarrow> (Inr (One (Some v)), self)
             | None \<Rightarrow>
                 (case gi (session self) (ids self ! j) of
                    (Inl e, s') \<Rightarrow>
                      (Inl e, self\<lparr>session := s', calls := calls self @ [ids self ! j]\<rparr>)
                  | (Inr v, s') \<Rightarrow>
                      (Inr (One v),
                       self\<lparr>items := (items self)[j := v], session := s',
                            calls := calls self @ [ids self ! j]\<rparr>)))"
    by (simp add: Let_def)
qed

theorem getitem_index_range_witness:
  "getitem echo_session abc (Idx 3) = (Inl IndexError, abc) \<and>
   getitem echo_session abc (Idx (- 4)) = (Inl IndexError, abc) \<and>
   getitem echo_session abc (Idx (- 3)) =
     (Inr (One (Some ''item-a'')),
      abc\<lparr>items := [Some ''item-a'', None, None], session := 1, calls := [''a'']\<rparr>)"
proof -
  have wf: "well_formed abc" by (simp add: eval_defs abc_def echo_session_def)
  have l: "len abc = 3" by (simp add: eval_defs abc_def echo_session_def)
  from getitem_index_range [OF wf, of 3 echo_session] l
  have a: "getitem echo_session abc (Idx 3) = (Inl IndexError, abc)" by simp
  from getitem_index_range [OF wf, of "- 4" echo_session] l
  have b: "getitem echo_session abc (Idx (- 4)) = (Inl IndexError, abc)" by simp
  from getitem_index_range [OF wf, of "- 3" echo_session] l
  have c: "getitem echo_session abc (Idx (- 3)) =
     (Inr (One (Some ''item-a'')),
      abc\<lparr>items := [Some ''item-a'', None, None], session := 1, calls := [''a'']\<rparr>)"
    by (simp add: eval_defs abc_def echo_session_def)
  from a b c show ?thesis by simp
qed

text \<open>
  C10, as the code has it. The claim says that \<open>__getitem__(-k)\<close> and then
  \<open>__getitem__(n - k)\<close> call \<open>get_item\<close> at most once in total, whatever the session. With
  a session whose \<open>get_item\<close> returns \<^verbatim>\<open>None\<close> the slot stays unset, and both calls call
  \<open>get_item\<close> for the identifier of the slot.
\<close>

theorem negative_index_same_slot_counterexample:
  "len abc = 3 \<and>
   getitem none_session abc (Idx (- 1)) =
     (Inr (One None), abc\<lparr>session := 1, calls := [''c'']\<rparr>) \<and>
   getitem none_session (abc\<lparr>session := 1, calls := [''c'']\<rparr>) (Idx 2) =
     (Inr (One None), abc\<lparr>session := 2, calls := [''c'', ''c'']\<rparr>)"
  by (simp add: eval_defs abc_def none_session_def)

text \<open>
  C10, amended: for \<open>1 \<le> k \<le> n\<close> the indices \<open>-k\<close> and \<open>n - k\<close> address the same slot: the
  two calls are the same operation on every object. When one of them has returned an item
  (a value other than \<^verbatim>\<open>None\<close>), the other returns the same item without a call of
  \<open>get_item\<close>, in either order, so both together make at most one call. When the first
  returns \<^verbatim>\<open>None\<close>, the slot is still unset and the other calls \<open>get_item\<close> again.
\<close>

theorem negative_index_same_slot:
  assumes "well_formed self" and "1 \<le> k" and "k \<le> len self"
  shows "getitem gi self (Idx (- k)) = getitem gi self (Idx (len self - k)) \<and>
    (getitem gi self (Idx (- k)) = (Inr (One (Some v)), self1) \<longrightarrow>
       getitem gi self1 (Idx (len self - k)) = (Inr (One (Some v)), self1) \<and>
       (calls self1 = calls self \<or> calls self1 = calls self @ [ids self ! nat (len self - k)])) \<and>
    (getitem gi self (Idx (len self - k)) = (Inr (One (Some w)), self2) \<longrightarrow>
       getitem gi self2 (Idx (- k)) = (Inr (One (Some w)), self2) \<and>
       (calls self2 = calls self \<or> calls self2 = calls self @ [ids self ! nat (len self - k)])) \<and>
    (getitem gi self (Idx (- k)) = (Inr (One None), self3) \<longrightarrow>
       calls (snd (getitem gi self3 (Idx (len self - k)))) =
         calls self @ [ids self ! nat (len self - k), ids self ! nat (len self - k)])"
proof -
  from assms(2,3) have neg: "list_index (length (ids self)) (- k) = Inr (nat (len self - k))"
    by (simp add: list_index_def len_def)
  from assms(2,3) have pos: "list_index (length (ids self)) (len self - k) = Inr (nat (len self - k))"
    by (simp add: list_index_def len_def)
  have same: "getitem gi self (Idx (- k)) = getitem gi self (Idx (len self - k))"
    by (simp add: getitem_Idx_inside [OF assms(1) neg] getitem_Idx_inside [OF assms(1) pos])
  have a: "getitem gi self1 (Idx (len self - k)) = (Inr (One (Some v)), self1) \<and>
       (calls self1 = calls self \<or> calls self1 = calls self @ [ids self ! nat (len self - k)])"
    if "getitem gi self (Idx (- k)) = (Inr (One (Some v)), self1)"
    using getitem_Idx_again [OF assms(1) neg pos that] getitem_Idx_memo [OF assms(1) neg that]
    by blast
  have b: "getitem gi self2 (Idx (- k)) = (Inr (One (Some w)), self2) \<and>
       (calls self2 = calls self \<or> calls self2 = calls self @ [ids self ! nat (len self - k)])"
    if "getitem gi self (Idx (len self - k)) = (Inr (One (Some w)), self2)"
    using getitem_Idx_again [OF assms(1) pos neg that] getitem_Idx_memo [OF assms(1) pos that]
    by blast
  have c: "calls (snd (getitem gi self3 (Idx (len self - k)))) =
         calls self @ [ids self ! nat (len self - k), ids self ! nat (len self - k)]"
    if "getitem gi self (Idx (- k)) = (Inr (One None), self3)"
    using getitem_Idx_None [OF assms(1) neg pos that] by blast
  from same a b c show ?thesis by blast
qed

theorem negative_index_same_slot_witness:
  "getitem echo_session abc (Idx (- 2)) = getitem echo_session abc (Idx 1) \<and>
   getitem echo_session abc (Idx (- 2)) =
     (Inr (One (Some ''item-b'')),
      abc\<lparr>items := [None, Some ''item-b'', None], session := 1, calls := [''b'']\<rparr>) \<and>
   getitem echo_session
     (abc\<lparr>items := [None, Some ''item-b'', None], session := 1, calls := [''b'']\<rparr>) (Idx 1) =
     (Inr (One (Some ''item-b'')),
      abc\<lparr>items := [None, Some ''item-b'', None], session := 1, calls := [''b'']\<rparr>)"
proof -
  have wf: "well_formed abc" by (simp add: eval_defs abc_def)
  have l: "len abc = 3" by (simp add: eval_defs abc_def)
  have k: "(1::int) \<le> 2" "2 \<le> len abc" by (simp_all add: l)
  have g: "getitem echo_session abc (Idx (- 2)) =
     (Inr (One (Some ''item-b'')),
      abc\<lparr>items := [None, Some ''item-b'', None], session := 1, calls := [''b'']\<rparr>)"
    by (simp add: eval_defs abc_def echo_session_def)
  from negative_index_same_slot [OF wf k, of echo_session "''item-b''"
      "abc\<lparr>items := [None, Some ''item-b'', None], session := 1, calls := [''b'']\<rparr>"] g l
  show ?thesis by simp
qed

subsection \<open>The invariant\<close>

lemma init_well_formed: "well_formed (IdentifierListAsItems_init a s)"
  by (simp add: well_formed_def IdentifierListAsItems_init_def Let_def)

text \<open>
  C7: a new object has one slot per identifier, all of them unset. Every run of
  \<open>__getitem__\<close> (integer or slice) and \<open>__getattr__\<close> calls, whatever they return or
  raise, keeps \<open>len(ids) = len(_items)\<close>, leaves \<open>ids\<close> and so \<open>__len__\<close> as they were,
  and leaves a slot that holds an item holding that same item: a slot goes from unset
  to set at most once and never back.
\<close>

theorem slots_and_length_kept:
  "well_formed (IdentifierListAsItems_init a s :: ('s, 'v) IdentifierListAsItems) \<and>
   items (IdentifierListAsItems_init a s :: ('s, 'v) IdentifierListAsItems) =
     replicate (length (ids (IdentifierListAsItems_init a s :: ('s, 'v) IdentifierListAsItems))) None \<and>
   len (IdentifierListAsItems_init (IdList xs) s :: ('s, 'v) IdentifierListAsItems) = int (length xs) \<and>
   (well_formed self \<longrightarrow> well_formed (snd (run gi self ops))) \<and>
   ids (snd (run gi self ops)) = ids self \<and>
   len (snd (run gi self ops)) = len self \<and>
   (items self ! j = Some v \<longrightarrow> items (snd (run gi self ops)) ! j = Some v)"
  using run_keeps [of gi self ops]
  by (simp add: well_formed_def IdentifierListAsItems_init_def Let_def len_def)

theorem slots_and_length_kept_witness:
  "well_formed (abc\<lparr>items := [Some ''item-a'', None, None], session := 1, calls := [''a'']\<rparr>) \<and>
   well_formed (snd (run echo_session
     (abc\<lparr>items := [Some ''item-a'', None, None], session := 1, calls := [''a'']\<rparr>)
     [GetByName ''c'', Get (Slice (Some 0) (Some 2) None), Get (Idx 7)])) \<and>
   items (snd (run echo_session
     (abc\<lparr>items := [Some ''item-a'', None, None], session := 1, calls := [''a'']\<rparr>)
     [GetByName ''c'', Get (Slice (Some 0) (Some 2) None), Get (Idx 7)])) ! 0 = Some ''item-a'' \<and>
   len (snd (run echo_session
     (abc\<lparr>items := [Some ''item-a'', None, None], session := 1, calls := [''a'']\<rparr>)
     [GetByName ''c'', Get (Slice (Some 0) (Some 2) None), Get (Idx 7)])) = 3"
proof -
  have wf: "well_formed (abc\<lparr>items := [Some ''item-a'', None, None], session := 1, calls := [''a'']\<rparr>)"
    by (simp add: eval_defs abc_def echo_session_def)
  have slot: "items (abc\<lparr>items := [Some ''item-a'', None, None], session := 1, calls := [''a'']\<rparr>) ! 0
      = Some ''item-a''"
    by simp
  have l: "len (abc\<lparr>items := [Some ''item-a'', None, None], session := 1, calls := [''a'']\<rparr>) = 3"
    by (simp add: eval_defs abc_def echo_session_def)
  note kept = slots_and_length_kept [of "SingleId ''foo''" "0::nat" "[]"
      "abc\<lparr>items := [Some ''item-a'', None, None], session := 1, calls := [''a'']\<rparr>"
      echo_session "[GetByName ''c'', Get (Slice (Some 0) (Some 2) None), Get (Idx 7)]" 0 "''item-a''"]
  from kept wf have a: "well_formed (snd (run echo_session
     (abc\<lparr>items := [Some ''item-a'', None, None], session := 1, calls := [''a'']\<rparr>)
     [GetByName ''c'', Get (Slice (Some 0) (Some 2) None), Get (Idx 7)]))"
    by blast
  from kept slot have b: "items (snd (run echo_session
     (abc\<lparr>items := [Some ''item-a'', None, None], session := 1, calls := [''a'']\<rparr>)
     [GetByName ''c'', Get (Slice (Some 0) (Some 2) None), Get (Idx 7)])) ! 0 = Some ''item-a''"
    by blast
  from kept have "len (snd (run echo_session
     (abc\<lparr>items := [Some ''item-a'', None, None], session := 1, calls := [''a'']\<rparr>)
     [GetByName ''c'', Get (Slice (Some 0) (Some 2) None), Get (Idx 7)])) =
     len (abc\<lparr>items := [Some ''item-a'', None, None], session := 1, calls := [''a'']\<rparr>)"
    by blast
  with l have c: "len (snd (run echo_session
     (abc\<lparr>items := [Some ''item-a'', None, None], session := 1, calls := [''a'']\<rparr>)
     [GetByName ''c'', Get (Slice (Some 0) (Some 2) None), Get (Idx 7)])) = 3"
    by (simp only:)
  from wf a b c show ?thesis by blast
qed

subsection \<open>Lookup by identifier\<close>

lemma index_of_first:
  "index_of xs x = Inr i \<Longrightarrow> i < length xs \<and> xs ! i = x \<and> (\<forall>j<i. xs ! j \<noteq> x)"
proof (induction xs arbitrary: i)
  case Nil
  then show ?case by simp
next
  case (Cons y ys)
  show ?case
  proof (cases "y = x")
    case True
    with Cons.prems show ?thesis by simp
  next
    case False
    with Cons.prems obtain k where k: "index_of ys x = Inr k" and i: "i = Suc k"
      by (auto split: sum.splits)
    from Cons.IH [OF k] False i show ?thesis
      by (auto simp: nth_Cons split: nat.splits)
  qed
qed

lemma index_of_present: "x \<in> set xs \<Longrightarrow> \<exists>i. index_of xs x = Inr i"
  by (induction xs) auto

lemma index_of_absent: "x \<notin> set xs \<Longrightarrow> index_of xs x = Inl ValueError"
  by (induction xs) auto

lemma getattr_absent:
  "name \<notin> set (ids self) \<Longrightarrow> getattr gi self name = (Inl AttributeError, self)"
  by (simp add: getattr_def index_of_absent except_ValueError_def)

lemma getattr_as_getitem:
  assumes "index_of (ids self) name = Inr i"
    and "fst (getitem gi self (Idx (int i))) \<noteq> Inl ValueError"
  shows "getattr gi self name = getitem gi self (Idx (int i))"
  using assms
  by (cases "getitem gi self (Idx (int i))")
     (auto simp: getattr_def except_ValueError_def split: sum.splits)

text \<open>
  C9: when the name stands in \<open>ids\<close>, at several positions or one, \<open>__getattr__\<close> works
  on the slot of its first position \<open>i\<close>: it returns the item of slot \<open>i\<close> when that is
  set, and otherwise calls \<open>get_item\<close> with the name once, stores its answer in slot
  \<open>i\<close> and returns it (or raises when \<open>get_item\<close> does). Every other slot, those of the later
  positions of the name among them, is left as it was.
\<close>

theorem getattr_first_occurrence:
  assumes "well_formed self" and "name \<in> set (ids self)"
  shows "\<exists>i<length (ids self). ids self ! i = name \<and> (\<forall>j<i. ids self ! j \<noteq> name) \<and>
     getattr gi self name =
       except_ValueError
         (case items self ! i of
            Some v \<Rightarrow> (Inr (One (Some v)), self)
          | None \<Rightarrow>
              (case gi (session self) name of
                 (Inl e, s') \<Rightarrow> (Inl e, self\<lparr>session := s', calls := calls self @ [name]\<rparr>)
               | (Inr v, s') \<Rightarrow>
                   (Inr (One v),
                    self\<lparr>items := (items self)[i := v], session := s',
                         calls := calls self @ [name]\<rparr>))) \<and>
     (\<forall>j. j \<noteq> i \<longrightarrow> items (snd (getattr gi self name)) ! j = items self ! j)"
proof -
  from index_of_present [OF assms(2)] obtain i where i: "index_of (ids self) name = Inr i"
    by blast
  note first = index_of_first [OF i]
  from first have li: "list_index (length (ids self)) (int i) = Inr i"
    by (simp add: list_index_def)
  have ga: "getattr gi self name = except_ValueError (getitem gi self (Idx (int i)))"
    by (simp add: getattr_def i)
  note gi_eq = getitem_Idx_inside [OF assms(1) li, of gi]
  have char: "getattr gi self name =
       except_ValueError
         (case items self ! i of
            Some v \<Rightarrow> (Inr (One (Some v)), self)
          | None \<Rightarrow>
              (case gi (session self) name of
                 (Inl e, s') \<Rightarrow> (Inl e, self\<lparr>session := s', calls := calls self @ [name]\<rparr>)
               | (Inr v, s') \<Rightarrow>
                   (Inr (One v),
                    self\<lparr>items := (items self)[i := v], session := s',
                         calls := calls self @ [name]\<rparr>)))"
  proof -
    from first have nm: "ids self ! i = name" by simp
    show ?thesis unfolding ga gi_eq nm ..
  qed
  have others: "items (snd (getattr gi self name)) ! j = items self ! j" if "j \<noteq> i" for j
    using that
    by (auto simp: char except_ValueError_def split: option.splits sum.splits prod.splits)
  from first char others show ?thesis by blast
qed

theorem getattr_first_occurrence_witness:
  "well_formed aba \<and> ''a'' \<in> set (ids aba) \<and> ids aba ! 2 = ''a'' \<and>
   fst (getattr echo_session aba ''a'') = Inr (One (Some ''item-a'')) \<and>
   items (snd (getattr echo_session aba ''a'')) = [Some ''item-a'', None, None] \<and>
   items (snd (getattr echo_session aba ''a'')) ! 2 = items aba ! 2"
proof -
  have wf: "well_formed aba" by (simp add: eval_defs aba_def echo_session_def)
  have mem: "''a'' \<in> set (ids aba)" by (simp add: eval_defs aba_def echo_session_def)
  have dup: "ids aba ! 2 = ''a''" and hd: "ids aba ! 0 = ''a''"
    by (simp_all add: eval_defs aba_def echo_session_def)
  from getattr_first_occurrence [OF wf mem, of echo_session] obtain i where
    least: "\<forall>j<i. ids aba ! j \<noteq> ''a''"
    and others: "\<forall>j. j \<noteq> i \<longrightarrow> items (snd (getattr echo_session aba ''a'')) ! j = items aba ! j"
    by blast
  from least hd have "i = 0" by (cases i) auto
  with others have later: "items (snd (getattr echo_session aba ''a'')) ! 2 = items aba ! 2"
    by simp
  have r: "fst (getattr echo_session aba ''a'') = Inr (One (Some ''item-a''))"
    and s: "items (snd (getattr echo_session aba ''a'')) = [Some ''item-a'', None, None]"
    by (simp_all add: eval_defs aba_def echo_session_def)
  from wf mem dup r s later show ?thesis by blast
qed

text \<open>
  C4, at an input where it fails: \<^verbatim>\<open>"b"\<close> stands at position 1 of \<open>ids\<close>, and the session
  raises \<^verbatim>\<open>ValueError\<close>. \<open>__getitem__(1)\<close> raises that \<^verbatim>\<open>ValueError\<close>, but
  \<open>__getattr__("b")\<close> raises \<^verbatim>\<open>AttributeError\<close>, as it does for the name \<^verbatim>\<open>"z"\<close> that is
  not in \<open>ids\<close>: it does not behave as \<open>__getitem__(1)\<close>, and the failed resolution cannot
  be told from a missing name. (\<open>getattr_as_getitem\<close> and \<open>getattr_absent\<close> above are the
  two halves of the claim where they hold.)
\<close>

theorem getattr_unlike_getitem:
  "index_of (ids abc) ''b'' = Inr 1 \<and>
   fst (getitem broken_session abc (Idx 1)) = Inl ValueError \<and>
   fst (getattr broken_session abc ''b'') = Inl AttributeError \<and>
   fst (getattr broken_session abc ''z'') = Inl AttributeError"
  by (simp add: eval_defs abc_def broken_session_def)

subsection \<open>Failures of the session\<close>

text \<open>
  An exception of \<open>get_item\<close> leaves \<open>__getitem__\<close> as it is: the slot stays unset, and
  the next call on the same index calls \<open>get_item\<close> again.
\<close>

lemma getitem_failure_propagates:
  assumes "well_formed self" and "list_index (length (ids self)) i = Inr j"
    and "items self ! j = None" and "gi (session self) (ids self ! j) = (Inl e, s')"
  shows "getitem gi self (Idx i) =
           (Inl e, self\<lparr>session := s', calls := calls self @ [ids self ! j]\<rparr>)"
  using assms by (simp add: getitem_Idx_inside)

lemma retry_after_failure:
  "getitem flaky_session abc (Idx 0) =
     (Inl (OtherError ''ConnectionError''), abc\<lparr>session := 1, calls := [''a'']\<rparr>) \<and>
   getitem flaky_session (abc\<lparr>session := 1, calls := [''a'']\<rparr>) (Idx 0) =
     (Inr (One (Some ''item-a'')),
      abc\<lparr>items := [Some ''item-a'', None, None], session := 2, calls := [''a'', ''a'']\<rparr>)"
  by (simp add: eval_defs abc_def flaky_session_def)

text \<open>
  C2, at an input where it fails: the session raises \<^verbatim>\<open>ValueError\<close>. \<open>__getitem__(0)\<close>
  lets it through, but \<open>__getattr__("a")\<close>, whose \<^verbatim>\<open>try\<close> block encloses the call of
  \<open>__getitem__\<close>, catches it and raises \<^verbatim>\<open>AttributeError\<close> in its place.
\<close>

theorem getattr_turns_session_ValueError_into_AttributeError:
  "broken_session 0 ''a'' = (Inl ValueError, 1) \<and>
   getitem broken_session abc (Idx 0) =
     (Inl ValueError, abc\<lparr>session := 1, calls := [''a'']\<rparr>) \<and>
   getattr broken_session abc ''a'' =
     (Inl AttributeError, abc\<lparr>session := 1, calls := [''a'']\<rparr>)"
  by (simp add: eval_defs abc_def broken_session_def)

subsection \<open>Slices\<close>

lemma py_range_pos: "0 < s \<Longrightarrow> x \<in> set (py_range a b s) \<Longrightarrow> a \<le> x \<and> x < b"
proof (induction a b s rule: py_range.induct)
  case (1 a b s)
  show ?case
  proof (cases "a < b")
    case True
    with "1.prems" have "x = a \<or> x \<in> set (py_range (a + s) b s)"
      by (simp add: py_range.simps [of a b s])
    with "1.IH"(1) "1.prems"(1) True show ?thesis by fastforce
  next
    case False
    with "1.prems" show ?thesis by (simp add: py_range.simps [of a b s])
  qed
qed

lemma py_range_neg: "s < 0 \<Longrightarrow> x \<in> set (py_range a b s) \<Longrightarrow> b < x \<and> x \<le> a"
proof (induction a b s rule: py_range.induct)
  case (1 a b s)
  show ?case
  proof (cases "b < a")
    case True
    with "1.prems" have "x = a \<or> x \<in> set (py_range (a + s) b s)"
      by (simp add: py_range.simps [of a b s])
    with "1.IH"(2) "1.prems"(1) True show ?thesis by fastforce
  next
    case False
    with "1.prems" show ?thesis by (simp add: py_range.simps [of a b s])
  qed
qed

lemma py_range_ascending: "0 < s \<Longrightarrow> sorted_wrt (<) (py_range a b s)"
proof (induction a b s rule: py_range.induct)
  case (1 a b s)
  show ?case
  proof (cases "a < b")
    case True
    have "a < x" if "x \<in> set (py_range (a + s) b s)" for x
      using py_range_pos [OF "1.prems" that] "1.prems" by simp
    with "1.IH"(1) "1.prems" True show ?thesis
      by (simp add: py_range.simps [of a b s])
  next
    case False
    with "1.prems" show ?thesis by (simp add: py_range.simps [of a b s])
  qed
qed

lemma py_range_descending: "s < 0 \<Longrightarrow> sorted_wrt (>) (py_range a b s)"
proof (induction a b s rule: py_range.induct)
  case (1 a b s)
  show ?case
  proof (cases "b < a")
    case True
    have "x < a" if "x \<in> set (py_range (a + s) b s)" for x
      using py_range_neg [OF "1.prems" that] "1.prems" by simp
    with "1.IH"(2) "1.prems" True show ?thesis
      by (simp add: py_range.simps [of a b s])
  next
    case False
    with "1.prems" show ?thesis by (simp add: py_range.simps [of a b s])
  qed
qed

lemma py_range_distinct: "s \<noteq> 0 \<Longrightarrow> distinct (py_range a b s)"
proof (cases "0 < s")
  case True
  from py_range_ascending [OF this, of a b] show ?thesis
    by (simp add: strict_sorted_iff)
next
  case False
  assume "s \<noteq> 0"
  with False have "s < 0" by simp
  from py_range_descending [OF this, of a b] have "sorted_wrt (<) (rev (py_range a b s))"
    by (simp add: sorted_wrt_rev)
  then have "distinct (rev (py_range a b s))" by (simp add: strict_sorted_iff)
  then show ?thesis by simp
qed

lemma slice_indices_step:
  "slice_indices start stop step n = Inr (a, b, s) \<Longrightarrow>
     s = (case step of None \<Rightarrow> 1 | Some x \<Rightarrow> x) \<and> s \<noteq> 0"
  by (auto simp: slice_indices_def Let_def split: if_splits)

lemma slice_indices_zero_step: "slice_indices start stop (Some 0) n = Inl ValueError"
  by (simp add: slice_indices_def)

lemma slice_indices_bounds:
  assumes "slice_indices start stop step n = Inr (a, b, s)"
  shows "(0 < s \<longrightarrow> 0 \<le> a \<and> b \<le> int n) \<and> (s < 0 \<longrightarrow> a \<le> int n - 1 \<and> - 1 \<le> b)"
  using assms
  by (auto simp: slice_indices_def clip_index_def Let_def split: if_splits option.splits)

lemma selected_in_range:
  assumes "slice_indices start stop step n = Inr (a, b, s)" and "x \<in> set (py_range a b s)"
  shows "0 \<le> x \<and> x < int n"
proof (cases "0 < s")
  case True
  with slice_indices_bounds [OF assms(1)] py_range_pos [OF True assms(2)] show ?thesis by simp
next
  case False
  with slice_indices_step [OF assms(1)] have neg: "s < 0" by simp
  with slice_indices_bounds [OF assms(1)] py_range_neg [OF neg assms(2)] show ?thesis by simp
qed

text \<open>The loop over indices that are positions of the list, as those of a slice are.\<close>

lemma resolve_all_untouched:
  assumes "well_formed self" and "\<forall>i\<in>set js. 0 \<le> i \<and> i < int (length (ids self))"
    and "resolve_all gi self js = (r, self')" and "int j \<notin> set js"
  shows "items self' ! j = items self ! j"
  using assms
proof (induction js arbitrary: self)
  case Nil
  then show ?case by simp
next
  case (Cons i rest)
  obtain r1 self1 where step: "resolve gi self i = (r1, self1)"
    by (cases "resolve gi self i")
  from Cons.prems(2) have li: "list_index (length (ids self)) i = Inr (nat i)"
    by (simp add: list_index_nonneg)
  from Cons.prems(2,4) have ne: "nat i \<noteq> j" by auto
  have one: "items self1 ! j = items self ! j"
    using resolve_cases [OF Cons.prems(1) li step] ne by cases simp_all
  note k = resolve_keeps [OF step]
  show ?case
  proof (cases r1)
    case (Inl e)
    with Cons.prems(3) step have "self' = self1" by simp
    with one show ?thesis by simp
  next
    case (Inr u)
    with Cons.prems(3) step have rest: "resolve_all gi self1 rest = (r, self')" by simp
    from Cons.prems(1) k have wf1: "well_formed self1" by (simp add: well_formed_def)
    from Cons.prems(2) k have in1: "\<forall>i\<in>set rest. 0 \<le> i \<and> i < int (length (ids self1))" by simp
    from Cons.prems(4) have "int j \<notin> set rest" by simp
    from Cons.IH [OF wf1 in1 rest this] one show ?thesis by simp
  qed
qed

lemma resolve_all_as_fetch:
  assumes "well_formed self" and "\<forall>i\<in>set js. 0 \<le> i \<and> i < int (length (ids self))"
    and "distinct js"
  shows "resolve_all gi self js =
     fetch_in_order gi self (map nat (filter (\<lambda>i. items self ! nat i = None) js))"
  using assms
proof (induction js arbitrary: self)
  case Nil
  then show ?case by simp
next
  case (Cons i rest)
  obtain r1 self1 where step: "resolve gi self i = (r1, self1)"
    by (cases "resolve gi self i")
  from Cons.prems(2) have li: "list_index (length (ids self)) i = Inr (nat i)"
    by (simp add: list_index_nonneg)
  note k = resolve_keeps [OF step]
  from Cons.prems(1) k have wf1: "well_formed self1" by (simp add: well_formed_def)
  from Cons.prems(2) k have in1: "\<forall>i\<in>set rest. 0 \<le> i \<and> i < int (length (ids self1))" by simp
  from Cons.prems(3) have d1: "distinct rest" and notin: "i \<notin> set rest" by simp_all
  note ih = Cons.IH [OF wf1 in1 d1]
  have same: "items self1 ! nat i' = items self ! nat i'" if "i' \<in> set rest" for i'
  proof -
    from that Cons.prems(2) have "0 \<le> i'" and "0 \<le> i" by simp_all
    moreover from that notin have "i \<noteq> i'" by auto
    ultimately have "nat i \<noteq> nat i'" by (simp add: eq_nat_nat_iff)
    with resolve_cases [OF Cons.prems(1) li step] show ?thesis by cases simp_all
  qed
  then have filt: "filter (\<lambda>i. items self1 ! nat i = None) rest =
      filter (\<lambda>i. items self ! nat i = None) rest"
    by (intro filter_cong) simp_all
  from Cons.prems(1) li step show ?case
  proof (cases rule: resolve_cases)
    case (memo v)
    with ih filt step show ?thesis by simp
  next
    case (failed e s')
    with step show ?thesis by simp
  next
    case (fetched v s')
    with ih filt step show ?thesis by simp
  qed
qed

lemma fetch_in_order_log:
  assumes "fetch_in_order gi self js = (r, self')"
  shows "ids self' = ids self \<and>
    (\<exists>m\<le>length js. calls self' = calls self @ map (\<lambda>j. ids self ! j) (take m js) \<and>
       (\<forall>u. r = Inr u \<longrightarrow> m = length js) \<and> (\<forall>e. r = Inl e \<longrightarrow> 0 < m))"
  using assms
proof (induction js arbitrary: self)
  case Nil
  then show ?case by auto
next
  case (Cons j js)
  obtain a s' where g: "gi (session self) (ids self ! j) = (a, s')"
    by (cases "gi (session self) (ids self ! j)")
  show ?case
  proof (cases a)
    case (Inl e)
    with Cons.prems g have r: "r = Inl e"
      and st: "self' = self\<lparr>session := s', calls := calls self @ [ids self ! j]\<rparr>"
      by simp_all
    have "Suc 0 \<le> length (j # js) \<and>
        calls self' = calls self @ map (\<lambda>j. ids self ! j) (take (Suc 0) (j # js)) \<and>
        (\<forall>u. r = Inr u \<longrightarrow> Suc 0 = length (j # js)) \<and> (\<forall>e. r = Inl e \<longrightarrow> 0 < Suc 0)"
      using r st by simp
    then have "\<exists>m\<le>length (j # js).
        calls self' = calls self @ map (\<lambda>j. ids self ! j) (take m (j # js)) \<and>
        (\<forall>u. r = Inr u \<longrightarrow> m = length (j # js)) \<and> (\<forall>e. r = Inl e \<longrightarrow> 0 < m)"
      by blast
    with st show ?thesis by simp
  next
    case (Inr v)
    let ?next = "self\<lparr>items := (items self)[j := v], session := s',
                     calls := calls self @ [ids self ! j]\<rparr>"
    from Cons.prems g Inr have "fetch_in_order gi ?next js = (r, self')" by simp
    from Cons.IH [OF this] obtain m where ids': "ids self' = ids self" and m: "m \<le> length js"
      and log: "calls self' = calls self @ [ids self ! j] @ map (\<lambda>j. ids self ! j) (take m js)"
      and ok: "\<forall>u. r = Inr u \<longrightarrow> m = length js"
      by auto
    have "Suc m \<le> length (j # js) \<and>
        calls self' = calls self @ map (\<lambda>j. ids self ! j) (take (Suc m) (j # js)) \<and>
        (\<forall>u. r = Inr u \<longrightarrow> Suc m = length (j # js)) \<and> (\<forall>e. r = Inl e \<longrightarrow> 0 < Suc m)"
      using m log ok by simp
    then have "\<exists>m\<le>length (j # js).
        calls self' = calls self @ map (\<lambda>j. ids self ! j) (take m (j # js)) \<and>
        (\<forall>u. r = Inr u \<longrightarrow> m = length (j # js)) \<and> (\<forall>e. r = Inl e \<longrightarrow> 0 < m)"
      by blast
    with ids' show ?thesis by simp
  qed
qed

lemma slice_indices_nonzero:
  "step \<noteq> Some 0 \<Longrightarrow> \<exists>a b s. slice_indices start stop step n = Inr (a, b, s)"
  by (cases step) (simp_all add: slice_indices_def Let_def)

lemma getitem_Slice_zero_step:
  "getitem gi self (Slice start stop (Some 0)) = (Inl ValueError, self)"
  by (simp add: getitem_def slice_indices_zero_step)

lemma getitem_Slice_unfold:
  assumes "well_formed self"
    and "slice_indices start stop step (length (ids self)) = Inr (a, b, s)"
  shows "getitem gi self (Slice start stop step) =
     (case resolve_all gi self (py_range a b s) of
        (Inl e, self') \<Rightarrow> (Inl e, self')
      | (Inr u, self') \<Rightarrow> (Inr (Many (map (\<lambda>i. items self' ! nat i) (py_range a b s))), self'))"
proof -
  obtain r1 self1 where ra: "resolve_all gi self (py_range a b s) = (r1, self1)"
    by (cases "resolve_all gi self (py_range a b s)")
  from resolve_all_keeps [OF ra] assms(1) have "length (items self1) = length (ids self)"
    by (simp add: well_formed_def)
  with assms(2) have "list_slice (items self1) start stop step =
      Inr (map (\<lambda>i. items self1 ! nat i) (py_range a b s))"
    by (simp add: list_slice_def)
  with assms(2) ra show ?thesis
    by (simp add: getitem_def len_def split: sum.splits)
qed

text \<open>
  C3, as the code has it. The claim says the selected slots are resolved in ascending
  index order, for every slice. The loop runs over \<^verbatim>\<open>range(*idx.indices(len(self)))\<close>, the
  slice's own order, which for a negative step is descending; and a zero step raises
  \<^verbatim>\<open>ValueError\<close>. Both are shown on the object with the identifiers a, b, c.
\<close>

theorem getitem_slice_counterexample:
  "ids abc = [''a'', ''b'', ''c''] \<and>
   getitem echo_session abc (Slice None None (Some (- 1))) =
     (Inr (Many [Some ''item-c'', Some ''item-b'', Some ''item-a'']),
      abc\<lparr>items := [Some ''item-a'', Some ''item-b'', Some ''item-c''], session := 3,
          calls := [''c'', ''b'', ''a'']\<rparr>) \<and>
   getitem echo_session abc (Slice None None (Some 0)) = (Inl ValueError, abc)"
  by (simp add: eval_defs abc_def echo_session_def py_range.simps)

text \<open>
  C3, amended. A slice with step 0 raises \<^verbatim>\<open>ValueError\<close> and leaves the object as it is.
  Every other slice has indices \<open>(a, b, s)\<close> for the length of the list, and the selected
  positions \<open>py_range a b s\<close> are positions of the list, ascending when \<open>s\<close> is positive and
  descending when it is negative. The outcome of \<open>__getitem__\<close> is then exactly that of
  \<open>fetch_in_order\<close> on the selected positions that are unset, in the order of the
  selection: \<open>get_item\<close> is called for each of them in turn, once, and each answer is
  stored in its slot (an answer of \<^verbatim>\<open>None\<close> leaves the slot unset); the first exception of
  \<open>get_item\<close> ends the call and is raised, what was stored before it being kept; without
  one the call returns what the selected slots hold, in the order of the selection. So a
  slot that is not selected stays as it was, a slot that holds an item keeps it, the log of
  calls grows by the identifiers of the unset selected slots in the order of the
  selection (all of them when the call returns, a non-empty initial part of them when it
  raises), and an empty selection returns the empty list and leaves the object as it is.
\<close>

theorem getitem_slice:
  assumes "well_formed self" and "getitem gi self (Slice start stop step) = (r, self')"
  shows "(step = Some 0 \<longrightarrow> r = Inl ValueError \<and> self' = self) \<and>
    (step \<noteq> Some 0 \<longrightarrow>
       (\<exists>a b s. slice_indices start stop step (length (ids self)) = Inr (a, b, s))) \<and>
    (\<forall>a b s. slice_indices start stop step (length (ids self)) = Inr (a, b, s) \<longrightarrow>
       (\<forall>i\<in>set (py_range a b s). 0 \<le> i \<and> i < len self) \<and>
       (0 < s \<longrightarrow> sorted_wrt (<) (py_range a b s)) \<and>
       (s < 0 \<longrightarrow> sorted_wrt (>) (py_range a b s)) \<and>
       (r, self') =
         (case fetch_in_order gi self
                 (map nat (filter (\<lambda>i. items self ! nat i = None) (py_range a b s))) of
            (Inl e, obj) \<Rightarrow> (Inl e, obj)
          | (Inr u, obj) \<Rightarrow>
              (Inr (Many (map (\<lambda>i. items obj ! nat i) (py_range a b s))), obj)) \<and>
       (\<forall>j. int j \<notin> set (py_range a b s) \<longrightarrow> items self' ! j = items self ! j) \<and>
       (\<forall>j v. items self ! j = Some v \<longrightarrow> items self' ! j = Some v) \<and>
       (\<forall>x. r = Inr x \<longrightarrow>
          x = Many (map (\<lambda>i. items self' ! nat i) (py_range a b s)) \<and>
          calls self' = calls self @
            map (\<lambda>i. ids self ! nat i)
              (filter (\<lambda>i. items self ! nat i = None) (py_range a b s))) \<and>
       (\<forall>e. r = Inl e \<longrightarrow>
          (\<exists>m<length (filter (\<lambda>i. items self ! nat i = None) (py_range a b s)).
             calls self' = calls self @
               map (\<lambda>i. ids self ! nat i)
                 (take (Suc m) (filter (\<lambda>i. items self ! nat i = None) (py_range a b s))))) \<and>
       (py_range a b s = [] \<longrightarrow> r = Inr (Many []) \<and> self' = self))"
proof (intro conjI allI impI)
  assume "step = Some 0"
  with assms(2) show "r = Inl ValueError" and "self' = self"
    by (simp_all add: getitem_Slice_zero_step)
next
  assume "step \<noteq> Some 0"
  then show "\<exists>a b s. slice_indices start stop step (length (ids self)) = Inr (a, b, s)"
    by (rule slice_indices_nonzero)
next
  fix a b s
  assume si: "slice_indices start stop step (length (ids self)) = Inr (a, b, s)"
  let ?sel = "py_range a b s"
  let ?asked = "filter (\<lambda>i. items self ! nat i = None) ?sel"
  have inr: "\<forall>i\<in>set ?sel. 0 \<le> i \<and> i < int (length (ids self))"
    using selected_in_range [OF si] by blast
  from slice_indices_step [OF si] have dist: "distinct ?sel" by (simp add: py_range_distinct)
  obtain r1 self1 where ra: "resolve_all gi self ?sel = (r1, self1)"
    by (cases "resolve_all gi self ?sel")
  with resolve_all_as_fetch [OF assms(1) inr dist, of gi]
  have fe: "fetch_in_order gi self (map nat ?asked) = (r1, self1)" by simp
  from getitem_Slice_unfold [OF assms(1) si, of gi] assms(2) ra
  have st: "self' = self1"
    and res: "r = (case r1 of Inl e \<Rightarrow> Inl e
                   | Inr u \<Rightarrow> Inr (Many (map (\<lambda>i. items self1 ! nat i) ?sel)))"
    by (auto split: sum.splits)
  from fetch_in_order_log [OF fe] obtain m where m: "m \<le> length ?asked"
    and log: "calls self1 = calls self @ map (\<lambda>i. ids self ! nat i) (take m ?asked)"
    and ok: "\<forall>u. r1 = Inr u \<longrightarrow> m = length ?asked"
    and bad: "\<forall>e. r1 = Inl e \<longrightarrow> 0 < m"
    by (auto simp: take_map comp_def)
  from inr show "\<forall>i\<in>set ?sel. 0 \<le> i \<and> i < len self" by (simp add: len_def)
  { assume "0 < s" then show "sorted_wrt (<) ?sel" by (rule py_range_ascending) }
  { assume "s < 0" then show "sorted_wrt (>) ?sel" by (rule py_range_descending) }
  show "(r, self') =
         (case fetch_in_order gi self (map nat ?asked) of
            (Inl e, obj) \<Rightarrow> (Inl e, obj)
          | (Inr u, obj) \<Rightarrow> (Inr (Many (map (\<lambda>i. items obj ! nat i) ?sel)), obj))"
    using fe st res by (cases r1) simp_all
  { fix j assume "int j \<notin> set ?sel"
    from resolve_all_untouched [OF assms(1) inr ra this] st
    show "items self' ! j = items self ! j" by simp }
  { fix j v assume "items self ! j = Some v"
    with resolve_all_keeps [OF ra] st show "items self' ! j = Some v" by simp }
  { fix x assume rx: "r = Inr x"
    with res obtain u where r1: "r1 = Inr u"
      and x: "x = Many (map (\<lambda>i. items self1 ! nat i) ?sel)"
      by (cases r1) simp_all
    from x st show "x = Many (map (\<lambda>i. items self' ! nat i) ?sel)" by simp
    from ok r1 log st show "calls self' = calls self @ map (\<lambda>i. ids self ! nat i) ?asked"
      by simp }
  { fix e assume "r = Inl e"
    with res have "r1 = Inl e" by (cases r1) simp_all
    with bad obtain m' where m': "m = Suc m'" by (cases m) auto
    with m have "m' < length ?asked" by simp
    moreover from log m' st
    have "calls self' = calls self @ map (\<lambda>i. ids self ! nat i) (take (Suc m') ?asked)"
      by simp
    ultimately show "\<exists>m<length ?asked.
        calls self' = calls self @ map (\<lambda>i. ids self ! nat i) (take (Suc m) ?asked)"
      by blast }
  { assume "?sel = []"
    with ra res st show "r = Inr (Many [])" and "self' = self" by auto }
qed

text \<open>
  The example of the specification: \<^verbatim>\<open>get(slice(0, 2))\<close> on the identifiers a, b, c
  returns the items of a and b, and slot 2 stays unset.
\<close>

theorem getitem_slice_witness:
  "slice_indices (Some 0) (Some 2) None (length (ids abc)) = Inr (0, 2, 1) \<and>
   py_range 0 2 1 = [0, 1] \<and>
   getitem echo_session abc (Slice (Some 0) (Some 2) None) =
     (Inr (Many [Some ''item-a'', Some ''item-b'']),
      abc\<lparr>items := [Some ''item-a'', Some ''item-b'', None], session := 2,
          calls := [''a'', ''b'']\<rparr>) \<and>
   items (abc\<lparr>items := [Some ''item-a'', Some ''item-b'', None], session := 2,
          calls := [''a'', ''b'']\<rparr>) ! 2 = items abc ! 2 \<and>
   items abc ! 2 = None"
proof -
  have wf: "well_formed abc" by (simp add: eval_defs abc_def)
  have si: "slice_indices (Some 0) (Some 2) None (length (ids abc)) = Inr (0, 2, 1)"
    by (simp add: eval_defs abc_def)
  have sel: "py_range 0 2 1 = [0, 1]" by (simp add: py_range.simps)
  have g: "getitem echo_session abc (Slice (Some 0) (Some 2) None) =
     (Inr (Many [Some ''item-a'', Some ''item-b'']),
      abc\<lparr>items := [Some ''item-a'', Some ''item-b'', None], session := 2,
          calls := [''a'', ''b'']\<rparr>)"
    by (simp add: eval_defs abc_def echo_session_def py_range.simps)
  have unset: "items abc ! 2 = None" by (simp add: eval_defs abc_def)
  from getitem_slice [OF wf g] si
  have "\<forall>j. int j \<notin> set (py_range 0 2 1) \<longrightarrow>
     items (abc\<lparr>items := [Some ''item-a'', Some ''item-b'', None], session := 2,
          calls := [''a'', ''b'']\<rparr>) ! j = items abc ! j"
    by blast
  then have "int 2 \<notin> set (py_range 0 2 1) \<longrightarrow>
     items (abc\<lparr>items := [Some ''item-a'', Some ''item-b'', None], session := 2,
          calls := [''a'', ''b'']\<rparr>) ! 2 = items abc ! 2"
    by (rule spec)
  then have "items (abc\<lparr>items := [Some ''item-a'', Some ''item-b'', None], session := 2,
          calls := [''a'', ''b'']\<rparr>) ! 2 = items abc ! 2"
    by (simp only: sel) simp
  with si sel g unset show ?thesis by blast
qed

text \<open>
  A slice access that fails on its second call of \<open>get_item\<close>, and one whose session
  returns \<^verbatim>\<open>None\<close>: the item fetched before the failure is kept, the calls are made in the
  order of the selection, and a slot that was answered \<^verbatim>\<open>None\<close> is asked for again.
\<close>

lemma slice_failure_keeps_fetched:
  "getitem tired_session abc (Slice None None None) =
     (Inl (OtherError ''ConnectionError''),
      abc\<lparr>items := [Some ''item-a'', None, None], session := 2, calls := [''a'', ''b'']\<rparr>) \<and>
   getitem tired_session abc (Slice None None (Some (- 1))) =
     (Inl (OtherError ''ConnectionError''),
      abc\<lparr>items := [None, None, Some ''item-c''], session := 2, calls := [''c'', ''b'']\<rparr>)"
  by (simp add: eval_defs abc_def tired_session_def py_range.simps)

lemma slice_None_answers:
  "getitem none_session abc (Slice (Some 1) None None) =
     (Inr (Many [None, None]), abc\<lparr>session := 2, calls := [''b'', ''c'']\<rparr>) \<and>
   getitem none_session (abc\<lparr>session := 2, calls := [''b'', ''c'']\<rparr>) (Slice (Some 1) None None) =
     (Inr (Many [None, None]), abc\<lparr>session := 4, calls := [''b'', ''c'', ''b'', ''c'']\<rparr>)"
  by (simp add: eval_defs abc_def none_session_def py_range.simps)

end
